theory Spec2Isabelle
  imports Main
begin

section \<open>Exceptions\<close>

text \<open>
  The Python exceptions that the modelled code can raise. \<open>AssertionError\<close> comes from the
  \<^verbatim>\<open>assert\<close> statements of \<^verbatim>\<open>_BufferPool\<close>, \<open>AttributeError\<close> from calling a method
  on \<^verbatim>\<open>None\<close>, \<open>ValueError\<close> from numpy's \<^verbatim>\<open>reshape\<close> and from tuple unpacking,
  \<open>IndexError\<close> from indexing an empty list.
  \<open>TimeoutException\<close> is the one exception that \<^verbatim>\<open>handle_one_buffer\<close> catches;
  \<open>FatalError\<close> stands for any other exception raised by the camera interface.
\<close>

datatype error =
  AssertionError | AttributeError | ValueError | IndexError | TimeoutException | FatalError

section \<open>The buffer pool (class \<^verbatim>\<open>_BufferPool\<close>)\<close>

text \<open>The only attribute is \<^verbatim>\<open>_buffers_in_use\<close>, an unbounded Python integer.\<close>

record BufferPool =
  n_buffers_in_use :: int

definition BufferPool_init :: BufferPool where
  "BufferPool_init = \<lparr>n_buffers_in_use = 0\<rparr>"

definition increment :: "BufferPool \<Rightarrow> BufferPool" where
  "increment p = p\<lparr>n_buffers_in_use := n_buffers_in_use p + 1\<rparr>"

definition decrement :: "BufferPool \<Rightarrow> error + BufferPool" where
  "decrement p =
     (if n_buffers_in_use p > 0 then Inr (p\<lparr>n_buffers_in_use := n_buffers_in_use p - 1\<rparr>)
      else Inl AssertionError)"

definition buffers_in_use :: "BufferPool \<Rightarrow> error + bool" where
  "buffers_in_use p =
     (if n_buffers_in_use p \<ge> 0 then Inr (n_buffers_in_use p > 0) else Inl AssertionError)"

definition reset :: "BufferPool \<Rightarrow> BufferPool" where
  "reset p = p\<lparr>n_buffers_in_use := 0\<rparr>"

text \<open>A sequence of calls on the pool; the first exception ends the sequence.\<close>

datatype pool_op = Increment | Decrement

fun apply_pool_op :: "pool_op \<Rightarrow> BufferPool \<Rightarrow> error + BufferPool" where
  "apply_pool_op Increment p = Inr (increment p)"
| "apply_pool_op Decrement p = decrement p"

fun run_pool_ops :: "pool_op list \<Rightarrow> BufferPool \<Rightarrow> error + BufferPool" where
  "run_pool_ops [] p = Inr p"
| "run_pool_ops (x # xs) p =
     (case apply_pool_op x p of Inl e \<Rightarrow> Inl e | Inr p' \<Rightarrow> run_pool_ops xs p')"

text \<open>
  Every decrement follows a matching increment: in each prefix of the sequence there are
  at least as many increments as decrements.
\<close>

definition matched :: "pool_op list \<Rightarrow> bool" where
  "matched ops \<longleftrightarrow>
     (\<forall>k \<in> set [0..<Suc (length ops)].
        count_list (take k ops) Decrement \<le> count_list (take k ops) Increment)"

section \<open>Buffers and the image buffer (class \<^verbatim>\<open>ImageBuffer\<close>)\<close>

text \<open>
  What the camera interface (harvesters, GenTL) hands over. A component carries the raw
  samples as a one-dimensional array of unsigned integers (numpy \<^verbatim>\<open>uint8\<close> or
  \<^verbatim>\<open>uint16\<close>); the model keeps each sample as a natural number.
\<close>

record Component =
  width :: nat
  height :: nat
  data_format_value :: nat
  data_format :: string
  data :: "nat list"
  num_components_per_pixel :: nat

datatype payload_type =
    PAYLOAD_TYPE_UNKNOWN | PAYLOAD_TYPE_IMAGE | PAYLOAD_TYPE_RAW_DATA | PAYLOAD_TYPE_FILE
  | PAYLOAD_TYPE_CHUNK_DATA | PAYLOAD_TYPE_JPEG | PAYLOAD_TYPE_JPEG2000 | PAYLOAD_TYPE_H264
  | PAYLOAD_TYPE_CHUNK_ONLY | PAYLOAD_TYPE_DEVICE_SPECIFIC | PAYLOAD_TYPE_MULTI_PART

definition VISIBLE_PAYLOADS :: "payload_type list" where
  "VISIBLE_PAYLOADS = [PAYLOAD_TYPE_IMAGE, PAYLOAD_TYPE_CHUNK_DATA, PAYLOAD_TYPE_MULTI_PART]"

text \<open>
  The buffer delivered by the event manager: \<open>buffer_context\<close> identifies it in the hardware
  ring, \<open>complete\<close> is the result of \<^verbatim>\<open>is_complete()\<close>, \<open>components\<close> are the payload's
  components as the wrapping \<^verbatim>\<open>Buffer\<close> object exposes them.
\<close>

record genicam_buffer =
  buffer_context :: nat
  complete :: bool
  payload_type :: payload_type
  components :: "Component list"

record Buffer =
  wrapped :: genicam_buffer

text \<open>
  Everything the program does to the outside, in the order it happens: calls on the image
  acquirer, buffers given back to the hardware ring (\<open>QueueBuffer\<close> by the acquisition
  loop, \<open>BufferQueue\<close> by \<^verbatim>\<open>ImageBuffer.release\<close>), and signals emitted.
  \<open>EmitImageAcquired r i\<close> is the signal carrying the \<^verbatim>\<open>ImageBuffer\<close> object with
  reference \<open>r\<close>, whose attribute \<^verbatim>\<open>i\<close> is \<open>i\<close>.
\<close>

datatype action =
    StartAcquisition | StopAcquisition | Destroy
  | QueueBuffer nat | BufferQueue nat
  | IncrementNumImages | UpdateTimestamp nat
  | EmitImageAcquired nat int | EmitDone

record ImageBuffer =
  ib_i :: int
  ib_buffer :: "Buffer option"

text \<open>
  The state of the process: the module-level singleton \<^verbatim>\<open>_BUFFER_BOOL\<close>, the
  \<^verbatim>\<open>ImageBuffer\<close> objects created so far (an object's reference is its position), the
  attributes \<^verbatim>\<open>_stop_acquisition\<close> and \<^verbatim>\<open>_ia\<close> of the reader thread, and the actions
  performed so far.
\<close>

record world =
  BUFFER_BOOL :: BufferPool
  heap :: "ImageBuffer list"
  flag_stop_acquisition :: bool
  ia :: "nat option"
  trace :: "action list"

text \<open>
  An exception does not undo what was done before it was raised, so a failing call
  returns the exception together with the state it leaves behind. The assertions of
  \<^verbatim>\<open>ImageBuffer.__init__\<close> on the types of its arguments hold by typing.
\<close>

definition ImageBuffer_init :: "int \<Rightarrow> Buffer \<Rightarrow> world \<Rightarrow> ImageBuffer \<times> world" where
  "ImageBuffer_init i buffer w =
     (\<lparr>ib_i = i, ib_buffer = Some buffer\<rparr>, w\<lparr>BUFFER_BOOL := increment (BUFFER_BOOL w)\<rparr>)"

definition release ::
  "ImageBuffer \<Rightarrow> world \<Rightarrow> (error \<times> ImageBuffer \<times> world) + (ImageBuffer \<times> world)" where
  "release self w =
     (case decrement (BUFFER_BOOL w) of
        Inl e \<Rightarrow> Inl (e, self, w)
      | Inr p \<Rightarrow>
          (case ib_buffer self of
             None \<Rightarrow> Inl (AttributeError, self, w\<lparr>BUFFER_BOOL := p\<rparr>)
           | Some b \<Rightarrow>
               Inr (self\<lparr>ib_buffer := None\<rparr>,
                    w\<lparr>BUFFER_BOOL := p, trace := trace w @ [BufferQueue (buffer_context (wrapped b))]\<rparr>)))"

text \<open>
  \<^verbatim>\<open>ImageReaderThread.__init__\<close> and \<^verbatim>\<open>ImageReaderThread.stop_acquisition\<close>. The frame
  rate only sets the lengths of the waits and is left out.
\<close>

definition ImageReaderThread_init :: "nat \<Rightarrow> world \<Rightarrow> world" where
  "ImageReaderThread_init a w =
     w\<lparr>flag_stop_acquisition := False, ia := Some a, BUFFER_BOOL := reset (BUFFER_BOOL w)\<rparr>"

definition stop_acquisition :: "world \<Rightarrow> world" where
  "stop_acquisition w = w\<lparr>flag_stop_acquisition := True\<rparr>"

text \<open>
  A history of image buffers: objects are created (as the acquisition loop does) and
  released through their references (as the consumer does). The first exception ends the
  history.
\<close>

datatype handle_op = Create int Buffer | Release nat

fun apply_handle_op :: "handle_op \<Rightarrow> world \<Rightarrow> (error \<times> world) + world" where
  "apply_handle_op (Create i b) w =
     (case ImageBuffer_init i b w of (obj, w') \<Rightarrow> Inr (w'\<lparr>heap := heap w' @ [obj]\<rparr>))"
| "apply_handle_op (Release r) w =
     (if r < length (heap w) then
        (case release (heap w ! r) w of
           Inl (e, obj, w') \<Rightarrow> Inl (e, w'\<lparr>heap := (heap w')[r := obj]\<rparr>)
         | Inr (obj, w') \<Rightarrow> Inr (w'\<lparr>heap := (heap w')[r := obj]\<rparr>))
      else Inr w)"


text \<open>The image buffers that have not been released.\<close>

definition outstanding :: "ImageBuffer list \<Rightarrow> nat" where
  "outstanding hs = length (filter (\<lambda>obj. ib_buffer obj \<noteq> None) hs)"

text \<open>
  Concrete values for the examples: the state after the module is loaded, before any
  reader thread exists, and a complete image frame with ring position \<open>k\<close>.
\<close>

definition initial_world :: world where
  "initial_world =
     \<lparr>BUFFER_BOOL = BufferPool_init, heap = [], flag_stop_acquisition = False, ia = None,
      trace = []\<rparr>"

definition test_frame :: "nat \<Rightarrow> Component list \<Rightarrow> genicam_buffer" where
  "test_frame k cs =
     \<lparr>buffer_context = k, complete = True, payload_type = PAYLOAD_TYPE_IMAGE, components = cs\<rparr>"

section \<open>Pixel normalisation (property \<^verbatim>\<open>ImageBuffer.image\<close>)\<close>

text \<open>
  The tables and functions of \<^verbatim>\<open>harvesters.util.pfnc\<close> that \<^verbatim>\<open>image\<close> consults. They
  belong to the camera library, so the model takes them as a parameter.
\<close>

record pfnc =
  is_custom :: "nat \<Rightarrow> bool"
  get_bits_per_pixel :: "string \<Rightarrow> int option"
  mono_location_formats :: "string list"
  bayer_location_formats :: "string list"
  rgb_formats :: "string list"
  rgba_formats :: "string list"
  bgr_formats :: "string list"
  bgra_formats :: "string list"

text \<open>
  A numpy array: its shape and its elements in row-major index order (the last index runs
  fastest). \<^verbatim>\<open>reshape\<close> of a one-dimensional array raises \<^verbatim>\<open>ValueError\<close> unless the new
  shape has as many places as the array has elements.
\<close>

record ndarray =
  shape :: "nat list"
  elems :: "nat list"

definition reshape :: "nat list \<Rightarrow> nat list \<Rightarrow> error + ndarray" where
  "reshape xs dims =
     (if prod_list dims = length xs then Inr \<lparr>shape = dims, elems = xs\<rparr> else Inl ValueError)"

text \<open>
  The slice \<^verbatim>\<open>content[:, :, ::-1]\<close> of a three-dimensional array: the same shape, with the
  elements along the last axis in reverse order. \<open>pixels m c xs\<close> cuts the first \<open>m\<close>
  groups of \<open>c\<close> elements off \<open>xs\<close>.
\<close>

fun pixels :: "nat \<Rightarrow> nat \<Rightarrow> 'a list \<Rightarrow> 'a list list" where
  "pixels 0 c xs = []"
| "pixels (Suc m) c xs = take c xs # pixels m c (drop c xs)"

definition reverse_last_axis :: "ndarray \<Rightarrow> ndarray" where
  "reverse_last_axis a =
     (case shape a of
        [h, w, c] \<Rightarrow> a\<lparr>elems := concat (map rev (pixels (h * w) c (elems a)))\<rparr>
      | _ \<Rightarrow> a)"

text \<open>
  \<^verbatim>\<open>content / (2**exponent)\<close> followed by \<^verbatim>\<open>astype(np.uint8)\<close>, for one sample. The
  division is a floating-point division by a power of two, which is exact for the integer
  samples of an image; the conversion to \<^verbatim>\<open>uint8\<close> drops the fraction and keeps the low
  eight bits of the integer part.
\<close>

definition to_uint8 :: "int \<Rightarrow> nat \<Rightarrow> nat" where
  "to_uint8 exponent v = (v div 2 ^ nat exponent) mod 256"

text \<open>
  Lines 104 to 133 of \<^verbatim>\<open>image\<close>: the raw samples arranged as a two-dimensional array
  (mono and Bayer formats) or as a three-dimensional one (colour formats), with the last
  axis reversed for the formats of \<^verbatim>\<open>bgr_formats\<close>. \<open>None\<close> is the plain \<^verbatim>\<open>return\<close> for
  a format of no known layout.
\<close>

definition reshape_content :: "pfnc \<Rightarrow> Component \<Rightarrow> error + ndarray option" where
  "reshape_content pf component =
     (if data_format component \<in> set (mono_location_formats pf)
         \<or> data_format component \<in> set (bayer_location_formats pf)
      then
        (case reshape (data component) [height component, width component] of
           Inl e \<Rightarrow> Inl e
         | Inr content \<Rightarrow> Inr (Some content))
      else if data_format component \<in> set (rgb_formats pf)
           \<or> data_format component \<in> set (rgba_formats pf)
           \<or> data_format component \<in> set (bgr_formats pf)
           \<or> data_format component \<in> set (bgra_formats pf)
      then
        (case reshape (data component)
                [height component, width component, num_components_per_pixel component] of
           Inl e \<Rightarrow> Inl e
         | Inr content \<Rightarrow>
             Inr (Some (if data_format component \<in> set (bgr_formats pf)
                        then reverse_last_axis content else content)))
      else Inr None)"

text \<open>
  Lines 88 to 142: the array \<^verbatim>\<open>content\<close> as it stands before the image is built, or
  \<open>None\<close> where \<^verbatim>\<open>image\<close> returns without an image.
\<close>

definition normalized_content :: "pfnc \<Rightarrow> Component \<Rightarrow> error + ndarray option" where
  "normalized_content pf component =
     (if is_custom pf (data_format_value component) then Inr None
      else
        (case get_bits_per_pixel pf (data_format component) of
           None \<Rightarrow> Inr None
         | Some bpp \<Rightarrow>
             (let exponent = bpp - 8
              in case reshape_content pf component of
                   Inl e \<Rightarrow> Inl e
                 | Inr None \<Rightarrow> Inr None
                 | Inr (Some content) \<Rightarrow>
                     Inr (Some (if exponent > 0
                                then content\<lparr>elems := map (to_uint8 exponent) (elems content)\<rparr>
                                else content)))))"

text \<open>
  The image handed to the consumer: the arguments of the \<^verbatim>\<open>QImage\<close> constructor, the
  first being the elements of \<^verbatim>\<open>content\<close> in index order. (The slice of line 131 is a
  view on the raw samples; how its elements lie in memory is not part of the model.)
\<close>

datatype qimage_format = Format_RGB888

record QImage =
  qi_data :: "nat list"
  qi_width :: nat
  qi_height :: nat
  qi_bytesPerLine :: nat
  qi_format :: qimage_format

text \<open>
  The property \<^verbatim>\<open>image\<close>. \<^verbatim>\<open>height2, width2, _ = content.shape\<close> raises \<^verbatim>\<open>ValueError\<close>
  unless the shape has exactly three entries.
\<close>

definition image :: "pfnc \<Rightarrow> ImageBuffer \<Rightarrow> error + QImage option" where
  "image pf self =
     (case ib_buffer self of
        None \<Rightarrow> Inl AttributeError
      | Some buffer \<Rightarrow>
          (case components (wrapped buffer) of
             [] \<Rightarrow> Inl IndexError
           | component # _ \<Rightarrow>
               (case normalized_content pf component of
                  Inl e \<Rightarrow> Inl e
                | Inr None \<Rightarrow> Inr None
                | Inr (Some content) \<Rightarrow>
                    (case shape content of
                       [height2, width2, _] \<Rightarrow>
                         Inr (Some \<lparr>qi_data = elems content, qi_width = width2,
                                    qi_height = height2, qi_bytesPerLine = 3 * width2,
                                    qi_format = Format_RGB888\<rparr>)
                     | _ \<Rightarrow> Inl ValueError))))"

text \<open>
  A small instance of these tables for the examples: a few formats of each layout, with
  eight or sixteen bits per sample.
\<close>

definition pfnc_sample :: pfnc where
  "pfnc_sample =
     \<lparr>is_custom = (\<lambda>v. 2147483648 \<le> v),
      get_bits_per_pixel = map_of
        [(''Mono8'', 8), (''Mono16'', 16), (''BayerRG8'', 8), (''RGB8'', 8), (''RGB16'', 16),
         (''RGBa8'', 8), (''BGR8'', 8), (''BGR16'', 16), (''BGRa8'', 8)],
      mono_location_formats = [''Mono8'', ''Mono16''],
      bayer_location_formats = [''BayerRG8''],
      rgb_formats = [''RGB8'', ''RGB16''],
      rgba_formats = [''RGBa8''],
      bgr_formats = [''BGR8'', ''BGR16''],
      bgra_formats = [''BGRa8'']\<rparr>"

definition frame_handle :: "Component \<Rightarrow> ImageBuffer" where
  "frame_handle component = \<lparr>ib_i = 0, ib_buffer = Some \<lparr>wrapped = test_frame 0 [component]\<rparr>\<rparr>"

section \<open>The acquisition loop (\<^verbatim>\<open>ImageReaderThread.run\<close>)\<close>

text \<open>
  What the surroundings do during one iteration of the loop. The consumer runs in another
  thread and releases image buffers it has received; the user interface may call
  \<^verbatim>\<open>stop_acquisition\<close>; the camera answers \<^verbatim>\<open>is_acquiring()\<close>; and the wait for the
  next buffer (\<^verbatim>\<open>msleep\<close> followed by \<^verbatim>\<open>update_event_data\<close>) ends with
  \<^verbatim>\<open>TimeoutException\<close>, with another exception, or with a buffer.
  \<^item> \<open>consumer_releases\<close>: the references released by the consumer since the previous
    iteration, in order;
  \<^item> \<open>stop_requested\<close>: \<^verbatim>\<open>stop_acquisition\<close> is called before the flag is read at the
    top of the iteration;
  \<^item> \<open>acquiring\<close>: the result of \<^verbatim>\<open>is_acquiring()\<close>;
  \<^item> \<open>stop_during_wait\<close>: \<^verbatim>\<open>stop_acquisition\<close> is called during the wait;
  \<^item> \<open>poll\<close>: how the wait ends.
\<close>

datatype poll_result = PollTimeout | PollFatal | PollBuffer genicam_buffer

record iteration =
  consumer_releases :: "nat list"
  stop_requested :: bool
  acquiring :: bool
  stop_during_wait :: bool
  poll :: poll_result

text \<open>
  A release by the consumer. An exception raised there is raised in the consumer's thread;
  the loop goes on from the state the exception left. A reference to an object that does
  not exist yet is skipped.
\<close>

definition consumer_release :: "nat \<Rightarrow> world \<Rightarrow> world" where
  "consumer_release r w =
     (case apply_handle_op (Release r) w of Inl (e, w') \<Rightarrow> w' | Inr w' \<Rightarrow> w')"

definition environment :: "iteration \<Rightarrow> world \<Rightarrow> world" where
  "environment x w =
     (let w0 = fold consumer_release (consumer_releases x) w
      in if stop_requested x then stop_acquisition w0 else w0)"

text \<open>The local function \<^verbatim>\<open>queue_buffer\<close> and the method \<^verbatim>\<open>_update_statistics\<close>.\<close>

definition queue_buffer :: "genicam_buffer \<Rightarrow> world \<Rightarrow> world" where
  "queue_buffer gb w = w\<lparr>trace := trace w @ [QueueBuffer (buffer_context gb)]\<rparr>"

definition update_statistics :: "Buffer \<Rightarrow> world \<Rightarrow> world" where
  "update_statistics buffer w =
     w\<lparr>trace := trace w @ [IncrementNumImages, UpdateTimestamp (buffer_context (wrapped buffer))]\<rparr>"

text \<open>
  The local function \<^verbatim>\<open>handle_one_buffer\<close>. Only \<^verbatim>\<open>TimeoutException\<close> is caught; any
  other exception of the wait leaves the function, and with it \<^verbatim>\<open>run\<close>.
\<close>

definition handle_one_buffer :: "int \<Rightarrow> iteration \<Rightarrow> world \<Rightarrow> (error \<times> world) + world" where
  "handle_one_buffer i x w =
     (let w1 = (if stop_during_wait x then stop_acquisition w else w)
      in case poll x of
           PollTimeout \<Rightarrow> Inr w1
         | PollFatal \<Rightarrow> Inl (FatalError, w1)
         | PollBuffer gb \<Rightarrow>
             if \<not> complete gb then Inr (queue_buffer gb w1)
             else if payload_type gb \<notin> set VISIBLE_PAYLOADS then Inr (queue_buffer gb w1)
             else if flag_stop_acquisition w1 then Inr (queue_buffer gb w1)
             else
               (let buffer = \<lparr>wrapped = gb\<rparr>;
                    w2 = update_statistics buffer w1
                in case ImageBuffer_init i buffer w2 of
                     (obj, w3) \<Rightarrow>
                       Inr (w3\<lparr>heap := heap w3 @ [obj],
                               trace := trace w3 @ [EmitImageAcquired (length (heap w3)) i]\<rparr>)))"

text \<open>
  The \<^verbatim>\<open>for i in itertools.count()\<close> loop. The loop has no bound of its own: it runs as
  long as the camera is acquiring and no stop is requested. The model runs it over the
  iterations that are given; \<open>Running\<close> is the state reached when they are used up and the
  loop has not been left, \<open>Returned\<close> the state after a \<^verbatim>\<open>break\<close>, \<open>Raised\<close> the state
  when an exception leaves the loop.
\<close>

datatype outcome = Running world | Returned world | Raised error world

fun world_of :: "outcome \<Rightarrow> world" where
  "world_of (Running w) = w"
| "world_of (Returned w) = w"
| "world_of (Raised e w) = w"

fun acquisition_loop :: "int \<Rightarrow> iteration list \<Rightarrow> world \<Rightarrow> outcome" where
  "acquisition_loop i [] w = Running w"
| "acquisition_loop i (x # xs) w =
     (let w1 = environment x w
      in if \<not> acquiring x then Returned w1
         else if flag_stop_acquisition w1 then
           (case buffers_in_use (BUFFER_BOOL w1) of
              Inl e \<Rightarrow> Raised e w1
            | Inr in_use \<Rightarrow>
                Returned (if in_use then w1\<lparr>trace := trace w1 @ [StopAcquisition]\<rparr> else w1))
         else
           (case handle_one_buffer i x w1 of
              Inl (e, w2) \<Rightarrow> Raised e w2
            | Inr w2 \<Rightarrow> acquisition_loop (i + 1) xs w2))"

text \<open>
  The three statements after the loop: \<^verbatim>\<open>self._ia.destroy()\<close>, \<^verbatim>\<open>self._ia = None\<close>,
  \<^verbatim>\<open>self.done.emit()\<close>.
\<close>

definition finalize :: "world \<Rightarrow> world" where
  "finalize w = w\<lparr>ia := None, trace := trace w @ [Destroy, EmitDone]\<rparr>"

text \<open>
  \<^verbatim>\<open>run\<close>: the first statement calls a method of \<^verbatim>\<open>self._ia\<close>, which raises
  \<^verbatim>\<open>AttributeError\<close> when an earlier run of the same object has cleared it. Inside the
  loop \<^verbatim>\<open>self._ia\<close> is the object that passed this first statement.
\<close>

definition run :: "iteration list \<Rightarrow> world \<Rightarrow> outcome" where
  "run script w =
     (case ia w of
        None \<Rightarrow> Raised AttributeError w
      | Some a \<Rightarrow>
          (case acquisition_loop 0 script (w\<lparr>trace := trace w @ [StartAcquisition]\<rparr>) of
             Running w1 \<Rightarrow> Running w1
           | Returned w1 \<Rightarrow> Returned (finalize w1)
           | Raised e w1 \<Rightarrow> Raised e w1))"

text \<open>The sequence indices carried by the frame signals of a list of actions.\<close>

definition emitted_indices :: "action list \<Rightarrow> int list" where
  "emitted_indices acts =
     concat (map (\<lambda>a. case a of EmitImageAcquired r i \<Rightarrow> [i] | _ \<Rightarrow> []) acts)"

text \<open>An iteration in which nothing happens: the camera is acquiring and the wait times out.\<close>

definition idle :: iteration where
  "idle = \<lparr>consumer_releases = [], stop_requested = False, acquiring = True,
            stop_during_wait = False, poll = PollTimeout\<rparr>"

section \<open>Properties of the buffer pool\<close>

lemma run_pool_ops_nonneg:
  "run_pool_ops ops p = Inr q \<Longrightarrow> 0 \<le> n_buffers_in_use p \<Longrightarrow> 0 \<le> n_buffers_in_use q"
proof (induction ops arbitrary: p)
  case Nil
  then show ?case by simp
next
  case (Cons x xs)
  show ?case
  proof (cases x)
    case Increment
    with Cons.prems have "run_pool_ops xs (increment p) = Inr q" by simp
    moreover have "0 \<le> n_buffers_in_use (increment p)"
      using Cons.prems(2) by (simp add: increment_def)
    ultimately show ?thesis by (rule Cons.IH)
  next
    case Decrement
    with Cons.prems obtain p' where d: "decrement p = Inr p'" and r: "run_pool_ops xs p' = Inr q"
      by (auto split: sum.splits)
    from d have "0 \<le> n_buffers_in_use p'"
      by (auto simp: decrement_def split: if_splits)
    with r show ?thesis by (rule Cons.IH)
  qed
qed

lemma run_pool_ops_offset:
  "0 \<le> n_buffers_in_use p \<Longrightarrow>
   \<forall>k \<le> length ops. int (count_list (take k ops) Decrement)
        \<le> n_buffers_in_use p + int (count_list (take k ops) Increment) \<Longrightarrow>
   \<exists>q. run_pool_ops ops p = Inr q \<and>
       n_buffers_in_use q = n_buffers_in_use p + int (count_list ops Increment)
                              - int (count_list ops Decrement)"
proof (induction ops arbitrary: p)
  case Nil
  then show ?case by simp
next
  case (Cons x xs)
  have step: "\<forall>k \<le> length xs. int (count_list (take (Suc k) (x # xs)) Decrement)
        \<le> n_buffers_in_use p + int (count_list (take (Suc k) (x # xs)) Increment)"
    using Cons.prems(2) by auto
  show ?case
  proof (cases x)
    case Increment
    have "\<exists>q. run_pool_ops xs (increment p) = Inr q \<and>
       n_buffers_in_use q = n_buffers_in_use (increment p) + int (count_list xs Increment)
                              - int (count_list xs Decrement)"
    proof (rule Cons.IH)
      show "0 \<le> n_buffers_in_use (increment p)"
        using Cons.prems(1) by (simp add: increment_def)
      show "\<forall>k \<le> length xs. int (count_list (take k xs) Decrement)
        \<le> n_buffers_in_use (increment p) + int (count_list (take k xs) Increment)"
        using step Increment by (simp add: increment_def algebra_simps)
    qed
    then show ?thesis using Increment by (auto simp: increment_def)
  next
    case Decrement
    from Cons.prems(2) have "int (count_list (take 1 (x # xs)) Decrement)
        \<le> n_buffers_in_use p + int (count_list (take 1 (x # xs)) Increment)"
      by (metis One_nat_def Suc_leI length_Cons zero_less_Suc)
    with Decrement have pos: "0 < n_buffers_in_use p" by simp
    define p' where "p' = p\<lparr>n_buffers_in_use := n_buffers_in_use p - 1\<rparr>"
    have d: "decrement p = Inr p'" using pos by (simp add: decrement_def p'_def)
    have "\<exists>q. run_pool_ops xs p' = Inr q \<and>
       n_buffers_in_use q = n_buffers_in_use p' + int (count_list xs Increment)
                              - int (count_list xs Decrement)"
    proof (rule Cons.IH)
      show "0 \<le> n_buffers_in_use p'" using pos by (simp add: p'_def)
      show "\<forall>k \<le> length xs. int (count_list (take k xs) Decrement)
        \<le> n_buffers_in_use p' + int (count_list (take k xs) Increment)"
        using step Decrement by (simp add: p'_def algebra_simps)
    qed
    then show ?thesis using Decrement d by (auto simp: p'_def)
  qed
qed

text \<open>
  Claim C5. Starting from \<open>reset\<close>, a sequence of increments and decrements in which each
  decrement follows a matching increment runs without an exception, the counter is the
  number of increments minus the number of decrements and is not negative, and
  \<open>buffers_in_use\<close> is true exactly when the counter is positive. Whatever the sequence, a
  run that ends without an exception leaves a counter that is not negative, and a
  decrement at counter zero raises \<open>AssertionError\<close> and leaves no negative counter.
\<close>

theorem buffer_pool_never_negative:
  "(matched ops \<longrightarrow>
      (\<exists>q. run_pool_ops ops (reset p) = Inr q \<and>
           n_buffers_in_use q = int (count_list ops Increment) - int (count_list ops Decrement) \<and>
           0 \<le> n_buffers_in_use q \<and>
           buffers_in_use q = Inr (0 < n_buffers_in_use q))) \<and>
   (\<forall>q. run_pool_ops ops (reset p) = Inr q \<longrightarrow>
      0 \<le> n_buffers_in_use q \<and> buffers_in_use q = Inr (0 < n_buffers_in_use q)) \<and>
   decrement (reset p) = Inl AssertionError"
proof (intro conjI impI allI)
  have nonneg: "0 \<le> n_buffers_in_use q \<and> buffers_in_use q = Inr (0 < n_buffers_in_use q)"
    if "run_pool_ops ops (reset p) = Inr q" for q
  proof -
    have "0 \<le> n_buffers_in_use q"
      using that by (rule run_pool_ops_nonneg) (simp add: reset_def)
    then show ?thesis by (simp add: buffers_in_use_def)
  qed
  show "0 \<le> n_buffers_in_use q" if "run_pool_ops ops (reset p) = Inr q" for q
    using nonneg [OF that] by simp
  show "buffers_in_use q = Inr (0 < n_buffers_in_use q)"
    if "run_pool_ops ops (reset p) = Inr q" for q
    using nonneg [OF that] by simp
  show "decrement (reset p) = Inl AssertionError"
    by (simp add: decrement_def reset_def)
  assume m: "matched ops"
  have "\<exists>q. run_pool_ops ops (reset p) = Inr q \<and>
       n_buffers_in_use q = n_buffers_in_use (reset p) + int (count_list ops Increment)
                              - int (count_list ops Decrement)"
  proof (rule run_pool_ops_offset)
    show "0 \<le> n_buffers_in_use (reset p)" by (simp add: reset_def)
    show "\<forall>k \<le> length ops. int (count_list (take k ops) Decrement)
        \<le> n_buffers_in_use (reset p) + int (count_list (take k ops) Increment)"
      using m by (auto simp: matched_def reset_def less_Suc_eq_le)
  qed
  then obtain q where q: "run_pool_ops ops (reset p) = Inr q"
    "n_buffers_in_use q = int (count_list ops Increment) - int (count_list ops Decrement)"
    by (auto simp: reset_def)
  with nonneg [OF q(1)]
  show "\<exists>q. run_pool_ops ops (reset p) = Inr q \<and>
           n_buffers_in_use q = int (count_list ops Increment) - int (count_list ops Decrement) \<and>
           0 \<le> n_buffers_in_use q \<and>
           buffers_in_use q = Inr (0 < n_buffers_in_use q)"
    by auto
qed

theorem buffer_pool_never_negative_witness:
  "matched [Increment, Increment, Decrement] \<and>
   run_pool_ops [Increment, Increment, Decrement] (reset \<lparr>n_buffers_in_use = 7\<rparr>)
     = Inr \<lparr>n_buffers_in_use = 1\<rparr> \<and>
   buffers_in_use \<lparr>n_buffers_in_use = 1\<rparr> = Inr True \<and>
   run_pool_ops [Increment, Decrement, Decrement] (reset \<lparr>n_buffers_in_use = 7\<rparr>)
     = Inl AssertionError"
  using buffer_pool_never_negative [of "[Increment, Increment, Decrement]" "\<lparr>n_buffers_in_use = 7\<rparr>"]
  by (simp add: matched_def reset_def increment_def decrement_def buffers_in_use_def)

section \<open>Properties of \<^verbatim>\<open>ImageBuffer.release\<close>\<close>

lemma outstanding_append: "outstanding (xs @ ys) = outstanding xs + outstanding ys"
  by (simp add: outstanding_def)










section \<open>Constructing a reader thread resets the pool\<close>

text \<open>
  Claim C10. Constructing an \<^verbatim>\<open>ImageReaderThread\<close> sets the pool counter to zero whatever
  it was and leaves the existing image buffers as they are, released or not. Releasing any
  image buffer in the state right after the construction fails in \<open>decrement\<close> with
  \<open>AssertionError\<close>: the object keeps its buffer and nothing is given back to the ring.
\<close>

theorem thread_init_resets_pool:
  "n_buffers_in_use (BUFFER_BOOL (ImageReaderThread_init a w)) = 0 \<and>
   heap (ImageReaderThread_init a w) = heap w \<and>
   release self (ImageReaderThread_init a w)
     = Inl (AssertionError, self, ImageReaderThread_init a w)"
  by (simp add: ImageReaderThread_init_def reset_def release_def decrement_def)

theorem thread_init_resets_pool_witness:
  "release \<lparr>ib_i = 0, ib_buffer = Some \<lparr>wrapped = test_frame 7 []\<rparr>\<rparr>
     \<lparr>BUFFER_BOOL = \<lparr>n_buffers_in_use = 1\<rparr>,
      heap = [\<lparr>ib_i = 0, ib_buffer = Some \<lparr>wrapped = test_frame 7 []\<rparr>\<rparr>],
      flag_stop_acquisition = True, ia = None, trace = []\<rparr>
   = Inr (\<lparr>ib_i = 0, ib_buffer = None\<rparr>,
      \<lparr>BUFFER_BOOL = \<lparr>n_buffers_in_use = 0\<rparr>,
       heap = [\<lparr>ib_i = 0, ib_buffer = Some \<lparr>wrapped = test_frame 7 []\<rparr>\<rparr>],
       flag_stop_acquisition = True, ia = None, trace = [BufferQueue 7]\<rparr>) \<and>
   release \<lparr>ib_i = 0, ib_buffer = Some \<lparr>wrapped = test_frame 7 []\<rparr>\<rparr>
     (ImageReaderThread_init 2
       \<lparr>BUFFER_BOOL = \<lparr>n_buffers_in_use = 1\<rparr>,
        heap = [\<lparr>ib_i = 0, ib_buffer = Some \<lparr>wrapped = test_frame 7 []\<rparr>\<rparr>],
        flag_stop_acquisition = True, ia = None, trace = []\<rparr>)
   = Inl (AssertionError, \<lparr>ib_i = 0, ib_buffer = Some \<lparr>wrapped = test_frame 7 []\<rparr>\<rparr>,
      \<lparr>BUFFER_BOOL = \<lparr>n_buffers_in_use = 0\<rparr>,
       heap = [\<lparr>ib_i = 0, ib_buffer = Some \<lparr>wrapped = test_frame 7 []\<rparr>\<rparr>],
       flag_stop_acquisition = False, ia = Some 2, trace = []\<rparr>)"
  using thread_init_resets_pool [of 2
      "\<lparr>BUFFER_BOOL = \<lparr>n_buffers_in_use = 1\<rparr>,
        heap = [\<lparr>ib_i = 0, ib_buffer = Some \<lparr>wrapped = test_frame 7 []\<rparr>\<rparr>],
        flag_stop_acquisition = True, ia = None, trace = []\<rparr>"
      "\<lparr>ib_i = 0, ib_buffer = Some \<lparr>wrapped = test_frame 7 []\<rparr>\<rparr>"]
  by (simp add: ImageReaderThread_init_def reset_def release_def decrement_def test_frame_def)

section \<open>Properties of the acquisition loop\<close>

lemma emitted_indices_simps [simp]:
  "emitted_indices [] = []"
  "emitted_indices (xs @ ys) = emitted_indices xs @ emitted_indices ys"
  "emitted_indices (EmitImageAcquired r i # xs) = i # emitted_indices xs"
  "emitted_indices (BufferQueue k # xs) = emitted_indices xs"
  "emitted_indices (QueueBuffer k # xs) = emitted_indices xs"
  "emitted_indices (IncrementNumImages # xs) = emitted_indices xs"
  "emitted_indices (UpdateTimestamp k # xs) = emitted_indices xs"
  "emitted_indices (StopAcquisition # xs) = emitted_indices xs"
  "emitted_indices (StartAcquisition # xs) = emitted_indices xs"
  "emitted_indices (Destroy # xs) = emitted_indices xs"
  "emitted_indices (EmitDone # xs) = emitted_indices xs"
  by (simp_all add: emitted_indices_def)

text \<open>What one consumer release can do to the state.\<close>

lemma consumer_release_effect:
  "\<exists>acts. trace (consumer_release r w) = trace w @ acts \<and>
          Destroy \<notin> set acts \<and> EmitDone \<notin> set acts \<and> emitted_indices acts = []"
  "ia (consumer_release r w) = ia w"
  "flag_stop_acquisition (consumer_release r w) = flag_stop_acquisition w"
  "0 \<le> n_buffers_in_use (BUFFER_BOOL w) \<Longrightarrow>
     0 \<le> n_buffers_in_use (BUFFER_BOOL (consumer_release r w))"
  by (auto simp: consumer_release_def release_def decrement_def split: option.splits)

lemma fold_consumer_release_effect:
  "\<exists>acts. trace (fold consumer_release rs w) = trace w @ acts \<and>
          Destroy \<notin> set acts \<and> EmitDone \<notin> set acts \<and> emitted_indices acts = []"
  "ia (fold consumer_release rs w) = ia w"
  "flag_stop_acquisition (fold consumer_release rs w) = flag_stop_acquisition w"
  "0 \<le> n_buffers_in_use (BUFFER_BOOL w) \<Longrightarrow>
     0 \<le> n_buffers_in_use (BUFFER_BOOL (fold consumer_release rs w))"
proof (induction rs arbitrary: w)
  case Nil
  { case 1 show ?case by simp }
  { case 2 show ?case by simp }
  { case 3 show ?case by simp }
  { case 4 then show ?case by simp }
next
  case (Cons r rs)
  { case 1
    obtain a1 where a1: "trace (consumer_release r w) = trace w @ a1"
      "Destroy \<notin> set a1" "EmitDone \<notin> set a1" "emitted_indices a1 = []"
      using consumer_release_effect(1) [where r = r and w = w] by blast
    obtain a2 where a2: "trace (fold consumer_release rs (consumer_release r w))
        = trace (consumer_release r w) @ a2"
      "Destroy \<notin> set a2" "EmitDone \<notin> set a2" "emitted_indices a2 = []"
      using Cons.IH(1) [where w = "consumer_release r w"] by blast
    show ?case
      by (rule exI [of _ "a1 @ a2"]) (simp add: a1 a2) }
  { case 2 show ?case by (simp add: Cons.IH(2) consumer_release_effect(2)) }
  { case 3 show ?case by (simp add: Cons.IH(3) consumer_release_effect(3)) }
  { case 4 then show ?case by (simp add: Cons.IH(4) consumer_release_effect(4)) }
qed

lemma environment_effect:
  "\<exists>acts. trace (environment x w) = trace w @ acts \<and>
          Destroy \<notin> set acts \<and> EmitDone \<notin> set acts \<and> emitted_indices acts = []"
  "ia (environment x w) = ia w"
  "0 \<le> n_buffers_in_use (BUFFER_BOOL w) \<Longrightarrow>
     0 \<le> n_buffers_in_use (BUFFER_BOOL (environment x w))"
  using fold_consumer_release_effect [where rs = "consumer_releases x" and w = w]
  by (simp_all add: environment_def stop_acquisition_def Let_def)

lemma handle_one_buffer_effect:
  assumes "handle_one_buffer i x w = Inr w' \<or> handle_one_buffer i x w = Inl (e, w')"
  shows "\<exists>acts. trace w' = trace w @ acts \<and> Destroy \<notin> set acts \<and> EmitDone \<notin> set acts \<and>
           (emitted_indices acts = [] \<or> emitted_indices acts = [i])"
    and "ia w' = ia w"
    and "0 \<le> n_buffers_in_use (BUFFER_BOOL w) \<Longrightarrow> 0 \<le> n_buffers_in_use (BUFFER_BOOL w')"
  using assms
  by (auto simp: handle_one_buffer_def Let_def stop_acquisition_def queue_buffer_def
      update_statistics_def ImageBuffer_init_def increment_def
      split: poll_result.splits if_splits)


lemma acquisition_loop_effect:
  "\<exists>acts. trace (world_of (acquisition_loop i script w)) = trace w @ acts \<and>
          Destroy \<notin> set acts \<and> EmitDone \<notin> set acts \<and>
          sorted_wrt (<) (emitted_indices acts) \<and>
          (\<forall>j \<in> set (emitted_indices acts). i \<le> j \<and> j < i + int (length script))"
proof (induction script arbitrary: i w)
  case Nil
  show ?case by simp
next
  case (Cons x xs)
  define w1 where "w1 = environment x w"
  obtain a0 where a0: "trace w1 = trace w @ a0" "Destroy \<notin> set a0" "EmitDone \<notin> set a0"
    "emitted_indices a0 = []"
    unfolding w1_def using environment_effect(1) [where x = x and w = w] by blast
  consider (gone) "\<not> acquiring x"
    | (stop) "acquiring x" "flag_stop_acquisition w1"
    | (go) "acquiring x" "\<not> flag_stop_acquisition w1"
    by blast
  then show ?case
  proof cases
    case gone
    then have "acquisition_loop i (x # xs) w = Returned w1"
      by (simp add: w1_def Let_def)
    then show ?thesis using a0 by simp
  next
    case stop
    then have "world_of (acquisition_loop i (x # xs) w) = w1 \<or>
      world_of (acquisition_loop i (x # xs) w) = w1\<lparr>trace := trace w1 @ [StopAcquisition]\<rparr>"
      by (simp add: w1_def [symmetric] Let_def split: sum.splits)
    then show ?thesis
    proof
      assume "world_of (acquisition_loop i (x # xs) w) = w1"
      then show ?thesis using a0 by simp
    next
      assume "world_of (acquisition_loop i (x # xs) w) = w1\<lparr>trace := trace w1 @ [StopAcquisition]\<rparr>"
      then show ?thesis using a0 by (intro exI [of _ "a0 @ [StopAcquisition]"]) simp
    qed
  next
    case go
    show ?thesis
    proof (cases "handle_one_buffer i x w1")
      case (Inl ew)
      obtain e w2 where ew: "ew = (e, w2)" by (cases ew)
      obtain a1 where a1: "trace w2 = trace w1 @ a1" "Destroy \<notin> set a1" "EmitDone \<notin> set a1"
        "emitted_indices a1 = [] \<or> emitted_indices a1 = [i]"
        using handle_one_buffer_effect(1) [where i = i and x = x and w = w1 and w' = w2 and e = e]
          Inl ew by blast
      have "acquisition_loop i (x # xs) w = Raised e w2"
        using go Inl ew by (simp add: w1_def [symmetric] Let_def)
      then show ?thesis using a0 a1 by (intro exI [of _ "a0 @ a1"]) auto
    next
      case (Inr w2)
      obtain a1 where a1: "trace w2 = trace w1 @ a1" "Destroy \<notin> set a1" "EmitDone \<notin> set a1"
        "emitted_indices a1 = [] \<or> emitted_indices a1 = [i]"
        using handle_one_buffer_effect(1) [where i = i and x = x and w = w1 and w' = w2]
          Inr by blast
      obtain a2 where a2: "trace (world_of (acquisition_loop (i + 1) xs w2)) = trace w2 @ a2"
        "Destroy \<notin> set a2" "EmitDone \<notin> set a2" "sorted_wrt (<) (emitted_indices a2)"
        "\<forall>j \<in> set (emitted_indices a2). i + 1 \<le> j \<and> j < i + 1 + int (length xs)"
        using Cons.IH [of "i + 1" w2] by blast
      have eq: "acquisition_loop i (x # xs) w = acquisition_loop (i + 1) xs w2"
        using go Inr by (simp add: w1_def [symmetric] Let_def)
      have "sorted_wrt (<) (emitted_indices a1 @ emitted_indices a2)"
        using a1(4) a2(4,5) by (auto simp: sorted_wrt_append)
      moreover have "\<forall>j \<in> set (emitted_indices a1 @ emitted_indices a2).
          i \<le> j \<and> j < i + int (length (x # xs))"
        using a1(4) a2(5) by auto
      ultimately show ?thesis
        unfolding eq using a0 a1 a2 by (intro exI [of _ "a0 @ a1 @ a2"]) simp
    qed
  qed
qed

lemma acquisition_loop_ia: "ia (world_of (acquisition_loop i script w)) = ia w"
proof (induction script arbitrary: i w)
  case Nil
  show ?case by simp
next
  case (Cons x xs)
  have e: "ia (environment x w) = ia w" by (rule environment_effect(2))
  show ?case
  proof (cases "handle_one_buffer i x (environment x w)")
    case (Inl ew)
    obtain e' w2 where ew: "ew = (e', w2)" by (cases ew)
    have "ia w2 = ia (environment x w)"
      using handle_one_buffer_effect(2) [where i = i and x = x and w = "environment x w" and w' = w2 and e = e']
        Inl ew by blast
    then show ?thesis using Inl ew e by (simp add: Let_def split: sum.splits)
  next
    case (Inr w2)
    have "ia w2 = ia (environment x w)"
      using handle_one_buffer_effect(2) [where i = i and x = x and w = "environment x w" and w' = w2]
        Inr by blast
    then show ?thesis using Inr e Cons.IH [of "i + 1" w2] by (simp add: Let_def split: sum.splits)
  qed
qed

lemma acquisition_loop_append:
  "acquisition_loop i pre w = Running wm \<Longrightarrow>
   acquisition_loop i (pre @ ys) w = acquisition_loop (i + int (length pre)) ys wm"
proof (induction pre arbitrary: i w)
  case Nil
  then show ?case by simp
next
  case (Cons x xs)
  from Cons.prems obtain w2 where h: "handle_one_buffer i x (environment x w) = Inr w2"
    and c: "acquiring x" "\<not> flag_stop_acquisition (environment x w)"
    and r: "acquisition_loop (i + 1) xs w2 = Running wm"
    by (auto simp: Let_def split: if_splits sum.splits)
  have idx: "i + 1 + int (length xs) = i + int (length (x # xs))" by simp
  from Cons.IH [OF r] have "acquisition_loop (i + 1) (xs @ ys) w2
      = acquisition_loop (i + int (length (x # xs))) ys wm"
    unfolding idx .
  then show ?case using h c by (simp add: Let_def)
qed

lemma environment_flag: "stop_requested x \<Longrightarrow> flag_stop_acquisition (environment x w)"
  by (simp add: environment_def stop_acquisition_def Let_def)

lemma handle_one_buffer_Inl: "handle_one_buffer i x w = Inl ew \<Longrightarrow> poll x = PollFatal"
  by (auto simp: handle_one_buffer_def Let_def ImageBuffer_init_def
      split: poll_result.splits if_splits)

lemma acquisition_loop_progress:
  "0 \<le> n_buffers_in_use (BUFFER_BOOL w) \<Longrightarrow> k < length script \<Longrightarrow>
   \<not> acquiring (script ! k) \<or> stop_requested (script ! k) \<Longrightarrow>
   \<forall>j < k. poll (script ! j) \<noteq> PollFatal \<Longrightarrow>
   \<exists>w'. acquisition_loop i script w = Returned w'"
proof (induction script arbitrary: i w k)
  case Nil
  then show ?case by simp
next
  case (Cons x xs)
  define w1 where "w1 = environment x w"
  have nn: "0 \<le> n_buffers_in_use (BUFFER_BOOL w1)"
    unfolding w1_def using Cons.prems(1) by (rule environment_effect(3))
  consider (gone) "\<not> acquiring x"
    | (stop) "acquiring x" "flag_stop_acquisition w1"
    | (go) "acquiring x" "\<not> flag_stop_acquisition w1"
    by blast
  then show ?case
  proof cases
    case gone
    then show ?thesis by (simp add: Let_def)
  next
    case stop
    then show ?thesis using nn
      by (simp add: w1_def [symmetric] Let_def buffers_in_use_def)
  next
    case go
    have "k \<noteq> 0"
    proof
      assume "k = 0"
      with Cons.prems(3) go(1) have "stop_requested x" by simp
      then have "flag_stop_acquisition w1" unfolding w1_def by (rule environment_flag)
      with go(2) show False by simp
    qed
    then obtain k' where k: "k = Suc k'" by (cases k) auto
    have "poll x \<noteq> PollFatal" using Cons.prems(4) k by auto
    then obtain w2 where h: "handle_one_buffer i x w1 = Inr w2"
      using handle_one_buffer_Inl [of i x w1] by (cases "handle_one_buffer i x w1") auto
    have nn2: "0 \<le> n_buffers_in_use (BUFFER_BOOL w2)"
      using handle_one_buffer_effect(3) [where i = i and x = x and w = w1 and w' = w2] h nn
      by blast
    have "\<exists>w'. acquisition_loop (i + 1) xs w2 = Returned w'"
    proof (rule Cons.IH [OF nn2])
      show "k' < length xs" using Cons.prems(2) k by simp
      show "\<not> acquiring (xs ! k') \<or> stop_requested (xs ! k')" using Cons.prems(3) k by simp
      show "\<forall>j < k'. poll (xs ! j) \<noteq> PollFatal" using Cons.prems(4) k by auto
    qed
    then show ?thesis using go h by (simp add: w1_def [symmetric] Let_def)
  qed
qed

text \<open>The definitions needed to run the loop on a concrete script.\<close>

lemmas eval_defs = run_def ImageReaderThread_init_def initial_world_def BufferPool_init_def
  reset_def environment_def handle_one_buffer_def Let_def stop_acquisition_def queue_buffer_def
  update_statistics_def ImageBuffer_init_def increment_def buffers_in_use_def test_frame_def
  VISIBLE_PAYLOADS_def consumer_release_def release_def decrement_def finalize_def idle_def

text \<open>
  Claim C7. In an iteration in which the camera is acquiring and the stop flag is set when
  the loop reads it, the loop leaves by \<^verbatim>\<open>break\<close> whatever the remaining iterations would
  be. The pool counter is never negative, so \<open>buffers_in_use\<close> reports whether it is
  positive, and the only action of the iteration is \<open>StopAcquisition\<close> when the pool is in
  use and nothing otherwise. A run that reaches this iteration goes on to the statements
  after the loop.
\<close>

theorem stop_request_at_iteration_boundary:
  assumes acq: "acquiring x"
    and flag: "flag_stop_acquisition (environment x w)"
    and nn0: "0 \<le> n_buffers_in_use (BUFFER_BOOL w)"
  shows "\<exists>w'. acquisition_loop i (x # xs) w = Returned w' \<and>
           buffers_in_use (BUFFER_BOOL (environment x w))
             = Inr (0 < n_buffers_in_use (BUFFER_BOOL (environment x w))) \<and>
           trace w' = trace (environment x w) @
             (if 0 < n_buffers_in_use (BUFFER_BOOL (environment x w)) then [StopAcquisition] else []) \<and>
           (\<forall>pre w0 a. ia w0 = Some a \<longrightarrow>
              acquisition_loop 0 pre (w0\<lparr>trace := trace w0 @ [StartAcquisition]\<rparr>) = Running w \<longrightarrow>
              run (pre @ x # xs) w0 = Returned (finalize w'))"
proof -
  define w1 where "w1 = environment x w"
  have nn: "0 \<le> n_buffers_in_use (BUFFER_BOOL (environment x w))"
    using nn0 by (rule environment_effect(3))
  define w' where "w' = (if 0 < n_buffers_in_use (BUFFER_BOOL w1)
     then w1\<lparr>trace := trace w1 @ [StopAcquisition]\<rparr> else w1)"
  have b: "buffers_in_use (BUFFER_BOOL w1) = Inr (0 < n_buffers_in_use (BUFFER_BOOL w1))"
    using nn by (simp add: buffers_in_use_def w1_def)
  have l: "acquisition_loop j (x # xs) w = Returned w'" for j
    using acq flag b by (simp add: w1_def [symmetric] Let_def w'_def)
  have t: "trace w' = trace w1 @
             (if 0 < n_buffers_in_use (BUFFER_BOOL w1) then [StopAcquisition] else [])"
    by (simp add: w'_def)
  have r: "run (pre @ x # xs) w0 = Returned (finalize w')"
    if "ia w0 = Some a"
      and "acquisition_loop 0 pre (w0\<lparr>trace := trace w0 @ [StartAcquisition]\<rparr>) = Running w"
    for pre w0 a
    using that acquisition_loop_append [OF that(2), of "x # xs"] l
    by (simp add: run_def)
  show ?thesis
    using l [of i] b t r unfolding w1_def by blast
qed

theorem stop_request_at_iteration_boundary_witness:
  "acquisition_loop 1 [idle\<lparr>stop_requested := True\<rparr>, idle]
     (initial_world\<lparr>BUFFER_BOOL := \<lparr>n_buffers_in_use = 1\<rparr>\<rparr>)
   = Returned (initial_world\<lparr>BUFFER_BOOL := \<lparr>n_buffers_in_use = 1\<rparr>,
       flag_stop_acquisition := True, trace := [StopAcquisition]\<rparr>) \<and>
   acquisition_loop 1 [idle\<lparr>stop_requested := True\<rparr>, idle] initial_world
   = Returned (initial_world\<lparr>flag_stop_acquisition := True\<rparr>)"
proof -
  let ?x = "idle\<lparr>stop_requested := True\<rparr>"
  let ?w = "initial_world\<lparr>BUFFER_BOOL := \<lparr>n_buffers_in_use = 1\<rparr>\<rparr>"
  have e1: "environment ?x ?w = ?w\<lparr>flag_stop_acquisition := True\<rparr>"
    by (simp add: environment_def idle_def stop_acquisition_def)
  have e2: "environment ?x initial_world = initial_world\<lparr>flag_stop_acquisition := True\<rparr>"
    by (simp add: environment_def idle_def stop_acquisition_def)
  have a: "acquiring ?x" by (simp add: idle_def)
  have f1: "flag_stop_acquisition (environment ?x ?w)" by (simp add: e1)
  have n1: "0 \<le> n_buffers_in_use (BUFFER_BOOL ?w)" by simp
  have f2: "flag_stop_acquisition (environment ?x initial_world)" by (simp add: e2)
  have n2: "0 \<le> n_buffers_in_use (BUFFER_BOOL initial_world)"
    by (simp add: initial_world_def BufferPool_init_def)
  from stop_request_at_iteration_boundary [OF a f1 n1, of 1 "[idle]"]
    stop_request_at_iteration_boundary [OF a f2 n2, of 1 "[idle]"]
  show ?thesis
    by (simp add: eval_defs)
qed


text \<open>
  Claim C1, amended. Whenever \<^verbatim>\<open>run\<close> returns, it has left the loop by one of the two
  \<^verbatim>\<open>break\<close> statements, and its last actions are \<open>Destroy\<close> and \<open>EmitDone\<close>, each done
  exactly once in the run, with \<^verbatim>\<open>self._ia\<close> cleared. A run on a thread that holds an
  image acquirer returns as soon as an iteration finds the camera not acquiring or a stop
  requested, provided no wait before it raised an exception other than the timeout. When an
  exception leaves \<^verbatim>\<open>run\<close>, nothing of this is done: the run has neither destroyed the
  acquirer nor emitted \<open>EmitDone\<close>, and \<^verbatim>\<open>self._ia\<close> is what it was.
\<close>

theorem run_emits_done_on_break:
  "(\<forall>w'. run script w = Returned w' \<longrightarrow>
      ia w' = None \<and>
      (\<exists>acts. trace w' = trace w @ StartAcquisition # acts @ [Destroy, EmitDone] \<and>
         Destroy \<notin> set acts \<and> EmitDone \<notin> set acts)) \<and>
   (ia w \<noteq> None \<and> 0 \<le> n_buffers_in_use (BUFFER_BOOL w) \<and>
    (\<exists>k < length script.
        (\<not> acquiring (script ! k) \<or> stop_requested (script ! k)) \<and>
        (\<forall>j < k. poll (script ! j) \<noteq> PollFatal)) \<longrightarrow>
      (\<exists>w'. run script w = Returned w')) \<and>
   (\<forall>e w'. run script w = Raised e w' \<longrightarrow>
      ia w' = ia w \<and>
      (\<exists>acts. trace w' = trace w @ acts \<and> Destroy \<notin> set acts \<and> EmitDone \<notin> set acts))"
proof (intro conjI allI impI)
  define w0 where "w0 = w\<lparr>trace := trace w @ [StartAcquisition]\<rparr>"
  obtain acts where acts:
    "trace (world_of (acquisition_loop 0 script w0)) = trace w0 @ acts"
    "Destroy \<notin> set acts" "EmitDone \<notin> set acts"
    using acquisition_loop_effect [of 0 script w0] by blast
  have ia0: "ia (world_of (acquisition_loop 0 script w0)) = ia w"
    by (simp add: acquisition_loop_ia w0_def)
  {
    fix w'
    assume r: "run script w = Returned w'"
    then obtain w1 where l: "acquisition_loop 0 script w0 = Returned w1"
      and w': "w' = finalize w1"
      by (auto simp: run_def w0_def split: option.splits outcome.splits)
    show "ia w' = None" by (simp add: w' finalize_def)
    have "trace w' = trace w @ StartAcquisition # acts @ [Destroy, EmitDone]"
      using acts(1) l by (simp add: w' finalize_def w0_def)
    then show "\<exists>acts. trace w' = trace w @ StartAcquisition # acts @ [Destroy, EmitDone] \<and>
         Destroy \<notin> set acts \<and> EmitDone \<notin> set acts"
      using acts(2,3) by blast
  }
  {
    fix e w'
    assume r: "run script w = Raised e w'"
    show "ia w' = ia w"
    proof (cases "ia w")
      case None
      with r show ?thesis by (simp add: run_def)
    next
      case (Some a)
      with r have "acquisition_loop 0 script w0 = Raised e w'"
        by (auto simp: run_def w0_def split: outcome.splits)
      with ia0 show ?thesis by simp
    qed
    show "\<exists>acts. trace w' = trace w @ acts \<and> Destroy \<notin> set acts \<and> EmitDone \<notin> set acts"
    proof (cases "ia w")
      case None
      with r have "trace w' = trace w @ []" by (simp add: run_def)
      then show ?thesis by (intro exI [of _ "[]"]) simp
    next
      case (Some a)
      with r have "acquisition_loop 0 script w0 = Raised e w'"
        by (auto simp: run_def w0_def split: outcome.splits)
      with acts(1) have "trace w' = trace w @ StartAcquisition # acts" by (simp add: w0_def)
      then show ?thesis using acts(2,3) by (intro exI [of _ "StartAcquisition # acts"]) simp
    qed
  }
  {
    assume a: "ia w \<noteq> None \<and> 0 \<le> n_buffers_in_use (BUFFER_BOOL w) \<and>
      (\<exists>k < length script.
        (\<not> acquiring (script ! k) \<or> stop_requested (script ! k)) \<and>
        (\<forall>j < k. poll (script ! j) \<noteq> PollFatal))"
    then obtain k where k: "k < length script"
      "\<not> acquiring (script ! k) \<or> stop_requested (script ! k)"
      "\<forall>j < k. poll (script ! j) \<noteq> PollFatal"
      by blast
    have "0 \<le> n_buffers_in_use (BUFFER_BOOL w0)" using a by (simp add: w0_def)
    from acquisition_loop_progress [OF this k, of 0]
    obtain w1 where "acquisition_loop 0 script w0 = Returned w1" by blast
    then show "\<exists>w'. run script w = Returned w'"
      using a by (auto simp: run_def w0_def)
  }
qed

theorem run_emits_done_on_break_witness:
  "run [idle, idle\<lparr>stop_requested := True\<rparr>] (ImageReaderThread_init 1 initial_world)
   = Returned \<lparr>BUFFER_BOOL = \<lparr>n_buffers_in_use = 0\<rparr>, heap = [], flag_stop_acquisition = True,
               ia = None, trace = [StartAcquisition, Destroy, EmitDone]\<rparr>"
proof -
  let ?s = "[idle, idle\<lparr>stop_requested := True\<rparr>]"
  let ?w = "ImageReaderThread_init 1 initial_world"
  have h: "ia ?w \<noteq> None \<and> 0 \<le> n_buffers_in_use (BUFFER_BOOL ?w) \<and>
    (\<exists>k < length ?s.
        (\<not> acquiring (?s ! k) \<or> stop_requested (?s ! k)) \<and>
        (\<forall>j < k. poll (?s ! j) \<noteq> PollFatal))"
    by (auto simp: ImageReaderThread_init_def initial_world_def BufferPool_init_def reset_def
        idle_def less_Suc_eq intro!: exI [of _ 1])
  from run_emits_done_on_break [of ?s ?w] h
  obtain w' where w': "run ?s ?w = Returned w'" "ia w' = None"
    "\<exists>acts. trace w' = trace ?w @ StartAcquisition # acts @ [Destroy, EmitDone] \<and>
         Destroy \<notin> set acts \<and> EmitDone \<notin> set acts"
    by blast
  have "run ?s ?w
   = Returned \<lparr>BUFFER_BOOL = \<lparr>n_buffers_in_use = 0\<rparr>, heap = [], flag_stop_acquisition = True,
               ia = None, trace = [StartAcquisition, Destroy, EmitDone]\<rparr>"
    by (simp add: eval_defs)
  with w' show ?thesis by simp
qed

text \<open>
  Claim C1 as stated fails: a wait that raises an exception other than
  \<^verbatim>\<open>TimeoutException\<close> in the first iteration ends the run with that exception; the only
  action of the run is \<open>StartAcquisition\<close>, and \<^verbatim>\<open>self._ia\<close> still holds the acquirer.
\<close>

theorem fatal_wait_emits_no_done:
  "run [idle\<lparr>poll := PollFatal\<rparr>] (ImageReaderThread_init 1 initial_world)
   = Raised FatalError
       \<lparr>BUFFER_BOOL = \<lparr>n_buffers_in_use = 0\<rparr>, heap = [], flag_stop_acquisition = False,
        ia = Some 1, trace = [StartAcquisition]\<rparr>"
  by (simp add: eval_defs)

text \<open>
  Claim C2 fails on the code. The first iteration accepts a frame and emits it; the
  consumer has not released it when the second iteration sees the stop request. The loop
  is left with the pool counter at one and the image buffer still holding its buffer, and
  \<^verbatim>\<open>run\<close> goes on to \<open>Destroy\<close>.
\<close>

theorem destroy_with_buffer_outstanding:
  "acquisition_loop 0
     [idle\<lparr>poll := PollBuffer (test_frame 7 [])\<rparr>, idle\<lparr>stop_requested := True\<rparr>]
     ((ImageReaderThread_init 1 initial_world)\<lparr>trace := [StartAcquisition]\<rparr>)
   = Returned
       \<lparr>BUFFER_BOOL = \<lparr>n_buffers_in_use = 1\<rparr>,
        heap = [\<lparr>ib_i = 0, ib_buffer = Some \<lparr>wrapped = test_frame 7 []\<rparr>\<rparr>],
        flag_stop_acquisition = True, ia = Some 1,
        trace = [StartAcquisition, IncrementNumImages, UpdateTimestamp 7,
                 EmitImageAcquired 0 0, StopAcquisition]\<rparr> \<and>
   run [idle\<lparr>poll := PollBuffer (test_frame 7 [])\<rparr>, idle\<lparr>stop_requested := True\<rparr>]
     (ImageReaderThread_init 1 initial_world)
   = Returned
       \<lparr>BUFFER_BOOL = \<lparr>n_buffers_in_use = 1\<rparr>,
        heap = [\<lparr>ib_i = 0, ib_buffer = Some \<lparr>wrapped = test_frame 7 []\<rparr>\<rparr>],
        flag_stop_acquisition = True, ia = None,
        trace = [StartAcquisition, IncrementNumImages, UpdateTimestamp 7,
                 EmitImageAcquired 0 0, StopAcquisition, Destroy, EmitDone]\<rparr>"
  by (simp add: eval_defs)


text \<open>
  Claim C8. The sequence indices of the frame signals emitted by a run, in the order of
  emission, are strictly increasing, hence without duplicates, and each is the number of an
  iteration of the run. A frame emitted in the iteration that follows \<open>length pre\<close> earlier
  iterations carries the index \<open>length pre\<close>, whatever those iterations did: an iteration
  that timed out or gave its buffer back has used up its index.
\<close>

theorem sequence_indices_strictly_increasing:
  "(\<exists>acts. trace (world_of (run script w)) = trace w @ acts \<and>
      sorted_wrt (<) (emitted_indices acts) \<and> distinct (emitted_indices acts) \<and>
      (\<forall>j \<in> set (emitted_indices acts). 0 \<le> j \<and> j < int (length script))) \<and>
   (\<forall>pre x wm w'.
      acquisition_loop 0 pre (w\<lparr>trace := trace w @ [StartAcquisition]\<rparr>) = Running wm \<longrightarrow>
      acquisition_loop 0 (pre @ [x]) (w\<lparr>trace := trace w @ [StartAcquisition]\<rparr>) = Running w' \<longrightarrow>
      (\<exists>acts. trace w' = trace wm @ acts \<and>
         (emitted_indices acts = [] \<or> emitted_indices acts = [int (length pre)])))"
proof (intro conjI allI impI)
  define w0 where "w0 = w\<lparr>trace := trace w @ [StartAcquisition]\<rparr>"
  obtain acts where acts:
    "trace (world_of (acquisition_loop 0 script w0)) = trace w0 @ acts"
    "sorted_wrt (<) (emitted_indices acts)"
    "\<forall>j \<in> set (emitted_indices acts). 0 \<le> j \<and> j < 0 + int (length script)"
    using acquisition_loop_effect [of 0 script w0] by blast
  have d: "distinct (emitted_indices acts)"
    using acts(2) by (simp add: strict_sorted_iff)
  show "\<exists>acts. trace (world_of (run script w)) = trace w @ acts \<and>
      sorted_wrt (<) (emitted_indices acts) \<and> distinct (emitted_indices acts) \<and>
      (\<forall>j \<in> set (emitted_indices acts). 0 \<le> j \<and> j < int (length script))"
  proof (cases "ia w")
    case None
    then have "trace (world_of (run script w)) = trace w @ []" by (simp add: run_def)
    then show ?thesis by (intro exI [of _ "[]"]) simp
  next
    case (Some a)
    show ?thesis
    proof (cases "acquisition_loop 0 script w0")
      case (Running w1)
      with Some acts(1) have "trace (world_of (run script w)) = trace w @ StartAcquisition # acts"
        by (simp add: run_def w0_def)
      then show ?thesis using acts(2,3) d by (intro exI [of _ "StartAcquisition # acts"]) simp
    next
      case (Returned w1)
      with Some acts(1) have "trace (world_of (run script w))
          = trace w @ StartAcquisition # acts @ [Destroy, EmitDone]"
        by (simp add: run_def w0_def finalize_def)
      then show ?thesis using acts(2,3) d
        by (intro exI [of _ "StartAcquisition # acts @ [Destroy, EmitDone]"]) simp
    next
      case (Raised e w1)
      with Some acts(1) have "trace (world_of (run script w)) = trace w @ StartAcquisition # acts"
        by (simp add: run_def w0_def)
      then show ?thesis using acts(2,3) d by (intro exI [of _ "StartAcquisition # acts"]) simp
    qed
  qed
next
  fix pre x wm w'
  assume p: "acquisition_loop 0 pre (w\<lparr>trace := trace w @ [StartAcquisition]\<rparr>) = Running wm"
    and q: "acquisition_loop 0 (pre @ [x]) (w\<lparr>trace := trace w @ [StartAcquisition]\<rparr>) = Running w'"
  from acquisition_loop_append [OF p, of "[x]"] q
  have l: "acquisition_loop (int (length pre)) [x] wm = Running w'" by simp
  then obtain w2 where h: "handle_one_buffer (int (length pre)) x (environment x wm) = Inr w2"
    and w2: "w2 = w'"
    by (auto simp: Let_def split: if_splits sum.splits)
  obtain a0 where a0: "trace (environment x wm) = trace wm @ a0" "emitted_indices a0 = []"
    using environment_effect(1) [where x = x and w = wm] by blast
  obtain a1 where a1: "trace w2 = trace (environment x wm) @ a1"
    "emitted_indices a1 = [] \<or> emitted_indices a1 = [int (length pre)]"
    using handle_one_buffer_effect(1)
      [where i = "int (length pre)" and x = x and w = "environment x wm" and w' = w2] h
    by blast
  show "\<exists>acts. trace w' = trace wm @ acts \<and>
         (emitted_indices acts = [] \<or> emitted_indices acts = [int (length pre)])"
    using a0 a1 w2 by (intro exI [of _ "a0 @ a1"]) auto
qed

theorem sequence_indices_strictly_increasing_witness:
  "emitted_indices (trace (world_of (run
      [idle\<lparr>poll := PollBuffer (test_frame 0 [])\<rparr>,
       idle\<lparr>poll := PollBuffer (test_frame 1 [])\<rparr>,
       idle\<lparr>poll := PollBuffer (test_frame 2 [])\<rparr>,
       idle\<lparr>poll := PollBuffer ((test_frame 3 [])\<lparr>complete := False\<rparr>)\<rparr>,
       idle\<lparr>poll := PollBuffer (test_frame 4 [])\<rparr>]
      (ImageReaderThread_init 1 initial_world)))) = [0, 1, 2, 4]"
proof -
  let ?s = "[idle\<lparr>poll := PollBuffer (test_frame 0 [])\<rparr>,
       idle\<lparr>poll := PollBuffer (test_frame 1 [])\<rparr>,
       idle\<lparr>poll := PollBuffer (test_frame 2 [])\<rparr>,
       idle\<lparr>poll := PollBuffer ((test_frame 3 [])\<lparr>complete := False\<rparr>)\<rparr>,
       idle\<lparr>poll := PollBuffer (test_frame 4 [])\<rparr>]"
  let ?w = "ImageReaderThread_init 1 initial_world"
  from sequence_indices_strictly_increasing [of ?s ?w]
  obtain acts where acts: "trace (world_of (run ?s ?w)) = trace ?w @ acts"
    "sorted_wrt (<) (emitted_indices acts)"
    by blast
  have "trace (world_of (run ?s ?w)) =
    [StartAcquisition,
     IncrementNumImages, UpdateTimestamp 0, EmitImageAcquired 0 0,
     IncrementNumImages, UpdateTimestamp 1, EmitImageAcquired 1 1,
     IncrementNumImages, UpdateTimestamp 2, EmitImageAcquired 2 2,
     QueueBuffer 3,
     IncrementNumImages, UpdateTimestamp 4, EmitImageAcquired 3 4]"
    by (simp add: eval_defs)
  with acts show ?thesis by simp
qed

section \<open>Properties of the pixel normalisation\<close>

text \<open>The definitions needed to compute an image from a concrete payload.\<close>

lemmas image_defs = image_def normalized_content_def reshape_content_def reshape_def
  reverse_last_axis_def to_uint8_def pfnc_sample_def frame_handle_def test_frame_def Let_def



text \<open>What it takes for \<open>image\<close> to return an image.\<close>

lemma image_SomeD:
  assumes "image pf self = Inr (Some q)"
  shows "\<exists>b c cs content h w n.
           ib_buffer self = Some b \<and> components (wrapped b) = c # cs \<and>
           normalized_content pf c = Inr (Some content) \<and> shape content = [h, w, n] \<and>
           q = \<lparr>qi_data = elems content, qi_width = w, qi_height = h, qi_bytesPerLine = 3 * w,
                qi_format = Format_RGB888\<rparr>"
  using assms
  by (auto simp: image_def split: option.splits list.splits sum.splits)

lemma normalized_content_SomeD:
  assumes "normalized_content pf c = Inr (Some content')"
  shows "\<exists>bpp content.
           \<not> is_custom pf (data_format_value c) \<and>
           get_bits_per_pixel pf (data_format c) = Some bpp \<and>
           reshape_content pf c = Inr (Some content) \<and>
           shape content' = shape content \<and>
           elems content' = (if bpp - 8 > 0 then map (to_uint8 (bpp - 8)) (elems content)
                             else elems content)"
  using assms
  by (auto simp: normalized_content_def Let_def split: option.splits sum.splits if_splits)

lemma reshape_content_mono:
  assumes "data_format c \<in> set (mono_location_formats pf) \<or>
           data_format c \<in> set (bayer_location_formats pf)"
    and "reshape_content pf c = Inr (Some content)"
  shows "shape content = [height c, width c] \<and> elems content = data c"
  using assms
  by (auto simp: reshape_content_def reshape_def split: if_splits)

text \<open>
  For a mono or Bayer format the array has two dimensions, so the unpacking of its shape
  into three names fails: \<open>image\<close> returns no image for any such payload.
\<close>

lemma image_mono_never_an_image:
  assumes "ib_buffer self = Some b" and "components (wrapped b) = c # cs"
    and "data_format c \<in> set (mono_location_formats pf) \<or>
         data_format c \<in> set (bayer_location_formats pf)"
  shows "image pf self \<noteq> Inr (Some q)"
proof
  assume "image pf self = Inr (Some q)"
  from image_SomeD [OF this] assms(1,2) obtain content h w n where
    n: "normalized_content pf c = Inr (Some content)" and s: "shape content = [h, w, n]"
    by auto
  from normalized_content_SomeD [OF n] obtain content0 where
    r: "reshape_content pf c = Inr (Some content0)" and "shape content = shape content0"
    by auto
  with reshape_content_mono [OF assms(3) r] s show False by simp
qed

text \<open>
  Claim C3 fails on the code. For the 8-bit mono payload of width 4 and height 2 the
  samples are arranged as a 2 by 4 array and left as they are, and then \<open>image\<close> raises
  \<open>ValueError\<close> where it unpacks the shape: no image is produced, and nothing is broadcast
  to three channels.
\<close>

theorem image_mono_raises:
  "image pfnc_sample
     (frame_handle \<lparr>width = 4, height = 2, data_format_value = 17301505,
        data_format = ''Mono8'', data = [11, 12, 13, 14, 21, 22, 23, 24],
        num_components_per_pixel = 1\<rparr>)
   = Inl ValueError \<and>
   normalized_content pfnc_sample
     \<lparr>width = 4, height = 2, data_format_value = 17301505,
      data_format = ''Mono8'', data = [11, 12, 13, 14, 21, 22, 23, 24],
      num_components_per_pixel = 1\<rparr>
   = Inr (Some \<lparr>shape = [2, 4], elems = [11, 12, 13, 14, 21, 22, 23, 24]\<rparr>)"
  by (simp add: image_defs)






text \<open>
  Claim C9. Whenever the normalisation yields an array, the format has a known number of
  bits per pixel \<open>bpp\<close>, and with \<open>exponent = bpp - 8\<close>: if the exponent is positive, every
  sample of the arranged array is divided by \<open>2 ^ exponent\<close> and cut to eight bits, so the
  result is below 256, and a sample that fits \<open>bpp\<close> bits is simply its quotient; if the
  exponent is not positive, the arranged array passes through unchanged. The image, when
  one is built, carries exactly these samples.
\<close>

theorem samples_scaled_to_8_bits:
  assumes nc: "normalized_content pf c = Inr (Some content')"
  shows "\<exists>bpp content.
           get_bits_per_pixel pf (data_format c) = Some bpp \<and>
           reshape_content pf c = Inr (Some content) \<and>
           shape content' = shape content \<and>
           (bpp - 8 > 0 \<longrightarrow>
              elems content' = map (\<lambda>v. (v div 2 ^ nat (bpp - 8)) mod 256) (elems content) \<and>
              (\<forall>v \<in> set (elems content'). v < 256) \<and>
              (\<forall>v \<in> set (elems content).
                 v < 2 ^ nat bpp \<longrightarrow> (v div 2 ^ nat (bpp - 8)) mod 256 = v div 2 ^ nat (bpp - 8))) \<and>
           (bpp - 8 \<le> 0 \<longrightarrow> content' = content) \<and>
           (\<forall>self b cs q.
              ib_buffer self = Some b \<longrightarrow> components (wrapped b) = c # cs \<longrightarrow>
              image pf self = Inr (Some q) \<longrightarrow> qi_data q = elems content')"
proof -
  from normalized_content_SomeD [OF nc] obtain bpp content where
    bpp: "get_bits_per_pixel pf (data_format c) = Some bpp" and
    rc: "reshape_content pf c = Inr (Some content)" and
    sh: "shape content' = shape content" and
    el: "elems content' = (if bpp - 8 > 0 then map (to_uint8 (bpp - 8)) (elems content)
                           else elems content)"
    by blast
  have a: "elems content' = map (\<lambda>v. (v div 2 ^ nat (bpp - 8)) mod 256) (elems content)"
    if "bpp - 8 > 0"
    using el that by (simp add: to_uint8_def [abs_def])
  have b: "\<forall>v \<in> set (elems content'). v < 256" if "bpp - 8 > 0"
    using a [OF that] by auto
  have c: "(v div 2 ^ nat (bpp - 8)) mod 256 = v div 2 ^ nat (bpp - 8)"
    if "bpp - 8 > 0" and "v < 2 ^ nat bpp" for v :: nat
  proof -
    have "nat bpp = 8 + nat (bpp - 8)" using that(1) by simp
    then have "(2::nat) ^ nat bpp = 256 * 2 ^ nat (bpp - 8)" by (simp add: power_add)
    with that(2) have "v div 2 ^ nat (bpp - 8) < 256"
      by (simp add: less_mult_imp_div_less)
    then show ?thesis by simp
  qed
  have d: "content' = content" if "bpp - 8 \<le> 0"
    using nc bpp rc that
    by (auto simp: normalized_content_def Let_def split: if_splits)
  have e: "qi_data q = elems content'"
    if "ib_buffer self = Some b" "components (wrapped b) = c # cs"
      "image pf self = Inr (Some q)" for self b cs q
    using image_SomeD [OF that(3)] that(1,2) nc by auto
  show ?thesis
    using bpp rc sh a b c d e by blast
qed

theorem samples_scaled_to_8_bits_witness:
  "normalized_content pfnc_sample
     \<lparr>width = 1, height = 1, data_format_value = 36700211,
      data_format = ''RGB16'', data = [1024, 512, 65535], num_components_per_pixel = 3\<rparr>
   = Inr (Some \<lparr>shape = [1, 1, 3], elems = [4, 2, 255]\<rparr>) \<and>
   image pfnc_sample
     (frame_handle \<lparr>width = 1, height = 1, data_format_value = 36700211,
        data_format = ''RGB16'', data = [1024, 512, 65535], num_components_per_pixel = 3\<rparr>)
   = Inr (Some \<lparr>qi_data = [4, 2, 255], qi_width = 1, qi_height = 1,
                qi_bytesPerLine = 3, qi_format = Format_RGB888\<rparr>) \<and>
   image pfnc_sample
     (frame_handle \<lparr>width = 1, height = 1, data_format_value = 35127316,
        data_format = ''RGB8'', data = [4, 2, 255], num_components_per_pixel = 3\<rparr>)
   = Inr (Some \<lparr>qi_data = [4, 2, 255], qi_width = 1, qi_height = 1,
                qi_bytesPerLine = 3, qi_format = Format_RGB888\<rparr>)"
proof -
  let ?c = "\<lparr>width = 1, height = 1, data_format_value = 36700211,
      data_format = ''RGB16'', data = [1024, 512, 65535], num_components_per_pixel = 3\<rparr>"
  have nc: "normalized_content pfnc_sample ?c
      = Inr (Some \<lparr>shape = [1, 1, 3], elems = [4, 2, 255]\<rparr>)"
    by (simp add: image_defs)
  from samples_scaled_to_8_bits [OF nc]
  have "\<exists>bpp. get_bits_per_pixel pfnc_sample (data_format ?c) = Some bpp" by blast
  then show ?thesis using nc by (simp add: image_defs)
qed

end
